theory Spec2Isabelle
  imports Main "HOL-Library.List_Lexorder" "HOL-Library.Char_ord"
begin

section \<open>Exceptions of the program\<close>

text \<open>
  The program signals failure by raising. Three exceptions can leave the functions
  embedded here: \<open>KeyError\<close> (a subscript \<open>d[k]\<close> on a dictionary without \<open>k\<close>, carrying
  the key), \<open>ValueError\<close> (raised by \<open>ConfigXmlGenerator.generate\<close>, carrying its message)
  and \<open>RecursionError\<close> (the interpreter's recursion limit reached by \<open>build_xml\<close>).
\<close>

datatype py_error = KeyError string | ValueError string | RecursionError

section \<open>ConfigComparator\<close>

text \<open>
  A configuration is a Python \<open>dict\<close> with string keys, read here as a map. The values
  are whatever \<open>json.load\<close> produced; the model keeps them polymorphic and reads
  Python's \<open>!=\<close> on them as disequality of values.

  The delta is the dictionary \<open>{"additions": ..., "deletions": ..., "updates": ...}\<close> of
  three lists; an addition is \<open>{"key", "value"}\<close>, an update is \<open>{"key", "from", "to"}\<close>.
\<close>

type_synonym 'v config = "string \<rightharpoonup> 'v"

record 'v delta =
  additions :: "(string \<times> 'v) list"
  deletions :: "string list"
  updates :: "(string \<times> 'v \<times> 'v) list"

text \<open>
  One round of the loop \<open>for key in all_keys\<close> of \<open>compare\<close>, with the three tests in the
  order of the source. The last test subscripts both dictionaries; for a key of neither
  it would raise \<open>KeyError\<close> at \<open>config[key]\<close>.
\<close>

definition compare_step :: "'v config \<Rightarrow> 'v config \<Rightarrow> string \<Rightarrow> 'v delta \<Rightarrow> py_error + 'v delta" where
  "compare_step config patched_config key d =
     (case (config key, patched_config key) of
        (None, Some v) \<Rightarrow> Inr (d\<lparr>additions := additions d @ [(key, v)]\<rparr>)
      | (Some a, None) \<Rightarrow> Inr (d\<lparr>deletions := deletions d @ [key]\<rparr>)
      | (None, None) \<Rightarrow> Inl (KeyError key)
      | (Some a, Some b) \<Rightarrow>
          (if a \<noteq> b then Inr (d\<lparr>updates := updates d @ [(key, a, b)]\<rparr>) else Inr d))"

fun compare_loop :: "'v config \<Rightarrow> 'v config \<Rightarrow> string list \<Rightarrow> 'v delta \<Rightarrow> py_error + 'v delta" where
  "compare_loop config patched_config [] d = Inr d"
| "compare_loop config patched_config (key # keys) d =
     (case compare_step config patched_config key d of
        Inl e \<Rightarrow> Inl e
      | Inr d' \<Rightarrow> compare_loop config patched_config keys d')"

text \<open>
  \<open>all_keys\<close> is a Python \<open>set\<close> of strings: the order in which the loop visits it is
  not fixed by the program (it follows the strings' hashes, which change from one
  interpreter run to the next). The model takes that order as the argument \<open>all_keys\<close>,
  a list whose elements are the keys of the two dictionaries.
\<close>

definition compare :: "string list \<Rightarrow> 'v config \<Rightarrow> 'v config \<Rightarrow> py_error + 'v delta" where
  "compare all_keys config patched_config =
     compare_loop config patched_config all_keys \<lparr>additions = [], deletions = [], updates = []\<rparr>"

definition is_all_keys :: "string list \<Rightarrow> 'v config \<Rightarrow> 'v config \<Rightarrow> bool" where
  "is_all_keys all_keys config patched_config \<longleftrightarrow>
     distinct all_keys \<and> set all_keys = dom config \<union> dom patched_config"

fun apply_deletions :: "string list \<Rightarrow> 'v config \<Rightarrow> 'v config" where
  "apply_deletions [] result = result"
| "apply_deletions (key # keys) result =
     apply_deletions keys (if result key \<noteq> None then result(key := None) else result)"

fun apply_updates :: "(string \<times> 'v \<times> 'v) list \<Rightarrow> 'v config \<Rightarrow> 'v config" where
  "apply_updates [] result = result"
| "apply_updates ((key, from, to) # us) result = apply_updates us (result(key \<mapsto> to))"

fun apply_additions :: "(string \<times> 'v) list \<Rightarrow> 'v config \<Rightarrow> 'v config" where
  "apply_additions [] result = result"
| "apply_additions ((key, v) # as) result = apply_additions as (result(key \<mapsto> v))"

definition apply_delta :: "'v config \<Rightarrow> 'v delta \<Rightarrow> 'v config" where
  "apply_delta config d =
     apply_additions (additions d) (apply_updates (updates d) (apply_deletions (deletions d) config))"

section \<open>ModelParser: multiplicity strings\<close>

text \<open>
  \<open>split_sep m\<close> is Python's \<open>m.split("..")\<close>: the string is scanned from the left, every
  occurrence of the two dots found closes the current part, and the scan goes on behind
  it. The result is never empty. \<open>contains_sep m\<close> is the test \<open>".." in m\<close>.
\<close>

fun split_sep :: "string \<Rightarrow> string list" where
  "split_sep [] = [[]]"
| "split_sep [c] = [[c]]"
| "split_sep (c # d # rest) =
     (if c = CHR ''.'' \<and> d = CHR ''.'' then [] # split_sep rest
      else (case split_sep (d # rest) of
              [] \<Rightarrow> [[c]]
            | part # parts \<Rightarrow> (c # part) # parts))"

fun contains_sep :: "string \<Rightarrow> bool" where
  "contains_sep [] = False"
| "contains_sep [c] = False"
| "contains_sep (c # d # rest) = ((c = CHR ''.'' \<and> d = CHR ''.'') \<or> contains_sep (d # rest))"

text \<open>
  The second and third component of the tuple that \<open>parse\<close> appends to \<open>child_classes\<close>:
  \<open>m.split("..")[0]\<close> and \<open>m.split("..")[-1] if ".." in m else m\<close>.
\<close>

definition multiplicity_bounds :: "string \<Rightarrow> string \<times> string" where
  "multiplicity_bounds m =
     (hd (split_sep m), if contains_sep m then last (split_sep m) else m)"

text \<open>The inverse operation \<open>"..".join(parts)\<close>, used to state what the parts are.\<close>

fun join_sep :: "string list \<Rightarrow> string" where
  "join_sep [] = []"
| "join_sep [p] = p"
| "join_sep (p # q # ps) = p @ ''..'' @ join_sep (q # ps)"

section \<open>Model classes\<close>

text \<open>
  \<open>Attribute\<close>, \<open>ClassModel\<close> and \<open>Aggregation\<close> are plain objects with the fields set
  in \<open>__init__\<close>. The field names of \<open>Attribute\<close> carry a prefix here, since \<open>ClassModel\<close>
  has a \<open>name\<close> too. A child of a class is the tuple \<open>(child_name, min, max)\<close>.
\<close>

record attribute =
  attr_name :: string
  attr_type :: string

type_synonym child = "string \<times> string \<times> string"

record class_model =
  name :: string
  is_root :: bool
  documentation :: string
  attributes :: "attribute list"
  child_classes :: "child list"

record aggregation =
  source :: string
  target :: string
  source_multiplicity :: string
  target_multiplicity :: string

text \<open>
  A Python \<open>dict\<close> keeps its keys in insertion order, and the generators depend on that
  order (\<open>model.values()\<close>, \<open>model.items()\<close>). The model of classes is therefore a list of
  pairs with distinct keys: \<open>d[k]\<close> and \<open>d.get(k)\<close> are \<open>map_of d k\<close>, and \<open>d[k] = v\<close> is
  \<open>dict_set k v d\<close>, which replaces the value of a key already present, at its place, and
  appends a new key at the end.
\<close>

type_synonym model = "(string \<times> class_model) list"

fun dict_set :: "'k \<Rightarrow> 'v \<Rightarrow> ('k \<times> 'v) list \<Rightarrow> ('k \<times> 'v) list" where
  "dict_set k v [] = [(k, v)]"
| "dict_set k v ((k', v') # d) = (if k' = k then (k, v) # d else (k', v') # dict_set k v d)"

section \<open>Element trees\<close>

text \<open>
  An \<open>xml.etree.ElementTree.Element\<close>: its tag, its attribute dictionary, its text and
  its children. \<open>ModelParser.parse\<close> reads such a tree (the result of \<open>ET.fromstring\<close>, which
  is not modelled), \<open>ConfigXmlGenerator.generate\<close> builds one (the rendering to text by
  \<open>ET.indent\<close> and \<open>ET.tostring\<close> is not modelled).
\<close>

datatype element =
  Element (elem_tag: string) (elem_attrib: "(string \<times> string) list")
    (elem_text: "string option") (elem_children: "element list")

text \<open>\<open>attrib[k]\<close> raises \<open>KeyError\<close> for a missing attribute; \<open>attrib.get(k, default)\<close> does not.\<close>

definition attrib_item :: "element \<Rightarrow> string \<Rightarrow> py_error + string" where
  "attrib_item elem k =
     (case map_of (elem_attrib elem) k of None \<Rightarrow> Inl (KeyError k) | Some v \<Rightarrow> Inr v)"

definition attrib_get :: "element \<Rightarrow> string \<Rightarrow> string \<Rightarrow> string" where
  "attrib_get elem k dflt =
     (case map_of (elem_attrib elem) k of None \<Rightarrow> dflt | Some v \<Rightarrow> v)"

text \<open>
  \<open>str.lower\<close> on the letters A to Z; the other characters are left as they are, which
  does not change the outcome of the comparison with \<open>"true"\<close> that \<open>parse\<close> makes.
\<close>

definition lower_char :: "char \<Rightarrow> char" where
  "lower_char c =
     (if CHR ''A'' \<le> c \<and> c \<le> CHR ''Z'' then char_of (of_char c + (32 :: nat)) else c)"

definition lower :: "string \<Rightarrow> string" where
  "lower s = map lower_char s"

section \<open>ModelParser.parse\<close>

text \<open>The loop \<open>for attr in elem\<close> of a \<open>Class\<close> element, appending to \<open>class_model.attributes\<close>.\<close>

fun parse_attributes :: "element list \<Rightarrow> class_model \<Rightarrow> py_error + class_model" where
  "parse_attributes [] class_model = Inr class_model"
| "parse_attributes (attr # rest) class_model =
     (if elem_tag attr = ''Attribute'' then
        (case attrib_item attr ''name'' of
           Inl e \<Rightarrow> Inl e
         | Inr n \<Rightarrow>
             (case attrib_item attr ''type'' of
                Inl e \<Rightarrow> Inl e
              | Inr t \<Rightarrow>
                  parse_attributes rest
                    (class_model\<lparr>attributes := attributes class_model @ [\<lparr>attr_name = n, attr_type = t\<rparr>]\<rparr>)))
      else parse_attributes rest class_model)"

text \<open>The body of the branch \<open>elem.tag == "Class"\<close>, up to the class to store and its key.\<close>

definition parse_class :: "element \<Rightarrow> py_error + string \<times> class_model" where
  "parse_class elem =
     (case attrib_item elem ''name'' of
        Inl e \<Rightarrow> Inl e
      | Inr class_name \<Rightarrow>
          (case parse_attributes (elem_children elem)
                  \<lparr>name = class_name,
                   is_root = (lower (attrib_get elem ''isRoot'' ''false'') = ''true''),
                   documentation = attrib_get elem ''documentation'' '''',
                   attributes = [], child_classes = []\<rparr> of
             Inl e \<Rightarrow> Inl e
           | Inr class_model \<Rightarrow> Inr (class_name, class_model)))"

text \<open>The body of the branch \<open>elem.tag == "Aggregation"\<close>: the four subscripts, in order.\<close>

definition parse_aggregation :: "element \<Rightarrow> py_error + aggregation" where
  "parse_aggregation elem =
     (case attrib_item elem ''source'' of
        Inl e \<Rightarrow> Inl e
      | Inr s \<Rightarrow>
     (case attrib_item elem ''target'' of
        Inl e \<Rightarrow> Inl e
      | Inr t \<Rightarrow>
     (case attrib_item elem ''sourceMultiplicity'' of
        Inl e \<Rightarrow> Inl e
      | Inr sm \<Rightarrow>
     (case attrib_item elem ''targetMultiplicity'' of
        Inl e \<Rightarrow> Inl e
      | Inr tm \<Rightarrow>
          Inr \<lparr>source = s, target = t, source_multiplicity = sm, target_multiplicity = tm\<rparr>))))"

text \<open>The first loop, \<open>for elem in root\<close>, on the state \<open>(classes, aggregations)\<close>.\<close>

fun parse_elements ::
  "element list \<Rightarrow> model \<times> aggregation list \<Rightarrow> py_error + model \<times> aggregation list" where
  "parse_elements [] st = Inr st"
| "parse_elements (elem # rest) (classes, aggregations) =
     (if elem_tag elem = ''Class'' then
        (case parse_class elem of
           Inl e \<Rightarrow> Inl e
         | Inr (class_name, class_model) \<Rightarrow>
             parse_elements rest (dict_set class_name class_model classes, aggregations))
      else if elem_tag elem = ''Aggregation'' then
        (case parse_aggregation elem of
           Inl e \<Rightarrow> Inl e
         | Inr agg \<Rightarrow> parse_elements rest (classes, aggregations @ [agg]))
      else parse_elements rest (classes, aggregations))"

text \<open>The tuple appended to \<open>target_class.child_classes\<close> for an aggregation.\<close>

definition child_of :: "aggregation \<Rightarrow> child" where
  "child_of agg =
     (source agg, fst (multiplicity_bounds (source_multiplicity agg)),
      snd (multiplicity_bounds (source_multiplicity agg)))"

text \<open>
  The second loop, \<open>for agg in aggregations\<close>. \<open>classes.get(agg.target)\<close> is \<open>None\<close> for an
  unknown target and the class object otherwise (an object is always true); appending to
  the \<open>child_classes\<close> of that object changes the entry of the dictionary at its place.
\<close>

fun resolve_aggregations :: "aggregation list \<Rightarrow> model \<Rightarrow> model" where
  "resolve_aggregations [] classes = classes"
| "resolve_aggregations (agg # aggs) classes =
     resolve_aggregations aggs
       (case map_of classes (target agg) of
          None \<Rightarrow> classes
        | Some target_class \<Rightarrow>
            dict_set (target agg)
              (target_class\<lparr>child_classes := child_classes target_class @ [child_of agg]\<rparr>) classes)"

definition parse :: "element \<Rightarrow> py_error + model \<times> aggregation list" where
  "parse root =
     (case parse_elements (elem_children root) ([], []) of
        Inl e \<Rightarrow> Inl e
      | Inr (classes, aggregations) \<Rightarrow>
          Inr (resolve_aggregations aggregations classes, aggregations))"

section \<open>ConfigXmlGenerator.generate\<close>

definition find_root :: "model \<Rightarrow> class_model option" where
  "find_root model = find is_root (map snd model)"

text \<open>\<open>ET.SubElement(element, attr.name)\<close> with its text set, and \<open>element.append(child)\<close>.\<close>

definition append_child :: "element \<Rightarrow> element \<Rightarrow> element" where
  "append_child element c =
     Element (elem_tag element) (elem_attrib element) (elem_text element) (elem_children element @ [c])"

fun add_attributes :: "attribute list \<Rightarrow> element \<Rightarrow> element" where
  "add_attributes [] element = element"
| "add_attributes (attr # rest) element =
     add_attributes rest (append_child element (Element (attr_name attr) [] (Some (attr_type attr)) []))"

text \<open>
  The local function \<open>build_xml\<close>. It calls itself for every child, and nothing in the
  program stops it on a cycle of classes: the interpreter then raises \<open>RecursionError\<close>
  once the calls are nested deeper than its recursion limit. \<open>limit\<close> is the number of
  nested calls still allowed. \<open>build_children\<close> is the loop over \<open>child_classes\<close>.
\<close>

fun build_xml :: "nat \<Rightarrow> model \<Rightarrow> string \<Rightarrow> py_error + element"
  and build_children :: "nat \<Rightarrow> model \<Rightarrow> child list \<Rightarrow> element \<Rightarrow> py_error + element" where
  "build_xml 0 model class_name = Inl RecursionError"
| "build_xml (Suc limit) model class_name =
     (case map_of model class_name of
        None \<Rightarrow> Inl (KeyError class_name)
      | Some class_model \<Rightarrow>
          build_children limit model (child_classes class_model)
            (add_attributes (attributes class_model) (Element class_name [] None [])))"
| "build_children limit model [] element = Inr element"
| "build_children limit model ((child_name, mn, mx) # rest) element =
     (case build_xml limit model child_name of
        Inl e \<Rightarrow> Inl e
      | Inr child_elem \<Rightarrow> build_children limit model rest (append_child element child_elem))"

definition config_xml_generate :: "nat \<Rightarrow> model \<Rightarrow> py_error + element" where
  "config_xml_generate limit model =
     (case find_root model of
        None \<Rightarrow> Inl (ValueError ''No root class found in the model'')
      | Some root_class \<Rightarrow> build_xml limit model (name root_class))"

section \<open>MetaJsonGenerator.generate\<close>

text \<open>
  An entry of \<open>parameters\<close> is \<open>{"name", "type"}\<close>; an entry of the result is the dictionary
  \<open>class_entry\<close>, whose keys \<open>"min"\<close> and \<open>"max"\<close> exist only when they were set. The
  rendering of the list by \<open>json.dumps\<close> is not modelled.
\<close>

record parameter =
  param_name :: string
  param_type :: string

record class_entry =
  entry_class :: string
  entry_documentation :: string
  entry_isRoot :: bool
  entry_parameters :: "parameter list"
  entry_min :: "string option"
  entry_max :: "string option"

fun attribute_parameters :: "attribute list \<Rightarrow> parameter list \<Rightarrow> parameter list" where
  "attribute_parameters [] parameters = parameters"
| "attribute_parameters (attr # rest) parameters =
     attribute_parameters rest
       (parameters @ [\<lparr>param_name = attr_name attr, param_type = attr_type attr\<rparr>])"

fun child_parameters :: "child list \<Rightarrow> parameter list \<Rightarrow> parameter list" where
  "child_parameters [] parameters = parameters"
| "child_parameters ((child_name, min_val, max_val) # rest) parameters =
     child_parameters rest (parameters @ [\<lparr>param_name = child_name, param_type = ''class''\<rparr>])"

definition class_entry_of :: "string \<Rightarrow> class_model \<Rightarrow> class_entry" where
  "class_entry_of class_name class_model =
     (let parameters =
            child_parameters (child_classes class_model)
              (attribute_parameters (attributes class_model) []);
          entry = \<lparr>entry_class = class_name, entry_documentation = documentation class_model,
                   entry_isRoot = is_root class_model, entry_parameters = parameters,
                   entry_min = None, entry_max = None\<rparr>
      in case child_classes class_model of
           [] \<Rightarrow> entry
         | (c, min_val, max_val) # rest \<Rightarrow> entry\<lparr>entry_min := Some min_val, entry_max := Some max_val\<rparr>)"

fun meta_json_loop :: "model \<Rightarrow> class_entry list \<Rightarrow> class_entry list" where
  "meta_json_loop [] result = result"
| "meta_json_loop ((class_name, class_model) # rest) result =
     meta_json_loop rest (result @ [class_entry_of class_name class_model])"

definition meta_json_generate :: "model \<Rightarrow> class_entry list" where
  "meta_json_generate model = meta_json_loop model []"

section \<open>Notions used to state the properties\<close>



text \<open>
  A model as \<open>parse\<close> builds it stores every class under its own name. It is resolved
  when every child names a class of the model, and acyclic when the classes can be
  ranked so that every child ranks below its parent.
\<close>

definition keyed :: "model \<Rightarrow> bool" where
  "keyed model = list_all (\<lambda>(k, c). name c = k) model"


definition ranked :: "(string \<Rightarrow> nat) \<Rightarrow> model \<Rightarrow> bool" where
  "ranked rank model =
     list_all (\<lambda>(k, c). list_all (\<lambda>child. rank (fst child) < rank k) (child_classes c)) model"

text \<open>The class names that the expansion of a class can come to look up.\<close>

inductive reachable :: "model \<Rightarrow> string \<Rightarrow> string \<Rightarrow> bool" for model :: model where
  here: "reachable model k k"
| child: "map_of model k = Some c \<Longrightarrow> child \<in> set (child_classes c) \<Longrightarrow>
          reachable model (fst child) n \<Longrightarrow> reachable model k n"

text \<open>The parameters of a class entry, as the specification lists them.\<close>

definition attribute_parameter :: "attribute \<Rightarrow> parameter" where
  "attribute_parameter attr = \<lparr>param_name = attr_name attr, param_type = attr_type attr\<rparr>"

definition child_parameter :: "child \<Rightarrow> parameter" where
  "child_parameter child = \<lparr>param_name = fst child, param_type = ''class''\<rparr>"

text \<open>
  What the second loop of \<open>parse\<close> does to one entry of the dictionary: the class gets one
  child per aggregation whose target is its key, in the order of the aggregations.
\<close>

definition add_children :: "aggregation list \<Rightarrow> string \<times> class_model \<Rightarrow> string \<times> class_model" where
  "add_children aggs kc =
     (fst kc, (snd kc)\<lparr>child_classes :=
        child_classes (snd kc) @ map child_of (filter (\<lambda>g. target g = fst kc) aggs)\<rparr>)"

text \<open>
  The dictionary of classes after the first loop of \<open>parse\<close>: distinct keys, every class
  stored under its name and still without children.
\<close>

definition fresh_classes :: "model \<Rightarrow> bool" where
  "fresh_classes classes \<longleftrightarrow>
     distinct (map fst classes) \<and> (\<forall>kc \<in> set classes. name (snd kc) = fst kc \<and> child_classes (snd kc) = [])"

section \<open>Properties of compare\<close>

lemma compare_loop_buckets:
  "set ks \<subseteq> dom config \<union> dom patched_config \<Longrightarrow>
   compare_loop config patched_config ks d = Inr
     \<lparr>additions = additions d @ map (\<lambda>k. (k, the (patched_config k))) (filter (\<lambda>k. config k = None) ks),
      deletions = deletions d @ filter (\<lambda>k. patched_config k = None) ks,
      updates = updates d @ map (\<lambda>k. (k, the (config k), the (patched_config k)))
         (filter (\<lambda>k. config k \<noteq> None \<and> patched_config k \<noteq> None \<and> config k \<noteq> patched_config k) ks)\<rparr>"
proof (induction ks arbitrary: d)
  case Nil
  show ?case by simp
next
  case (Cons k ks)
  from Cons.prems have sub: "set ks \<subseteq> dom config \<union> dom patched_config"
    and k: "config k \<noteq> None \<or> patched_config k \<noteq> None" by auto
  show ?case
    using k by (auto simp: compare_step_def Cons.IH [OF sub] split: option.splits)
qed

lemma compare_buckets:
  assumes "set all_keys = dom config \<union> dom patched_config"
  shows "compare all_keys config patched_config = Inr
     \<lparr>additions = map (\<lambda>k. (k, the (patched_config k))) (filter (\<lambda>k. config k = None) all_keys),
      deletions = filter (\<lambda>k. patched_config k = None) all_keys,
      updates = map (\<lambda>k. (k, the (config k), the (patched_config k)))
         (filter (\<lambda>k. config k \<noteq> None \<and> patched_config k \<noteq> None \<and> config k \<noteq> patched_config k) all_keys)\<rparr>"
  using assms by (simp add: compare_def compare_loop_buckets)

lemma apply_deletions_lookup:
  "apply_deletions ks result k = (if k \<in> set ks then None else result k)"
  by (induction ks arbitrary: result) auto

lemma apply_updates_lookup:
  "\<forall>u \<in> set us. p (fst u) = Some (snd (snd u)) \<Longrightarrow>
   apply_updates us result k = (if k \<in> fst ` set us then p k else result k)"
proof (induction us arbitrary: result)
  case Nil
  show ?case by simp
next
  case (Cons u us)
  obtain key "from" to where u: "u = (key, from, to)" by (cases u)
  from Cons.prems have rest: "\<forall>u \<in> set us. p (fst u) = Some (snd (snd u))"
    and here: "p key = Some to" by (simp_all add: u)
  show ?case
    using here by (simp add: u Cons.IH [OF rest])
qed

lemma apply_additions_lookup:
  "\<forall>a \<in> set as. p (fst a) = Some (snd a) \<Longrightarrow>
   apply_additions as result k = (if k \<in> fst ` set as then p k else result k)"
proof (induction as arbitrary: result)
  case Nil
  show ?case by simp
next
  case (Cons a as)
  obtain key v where a: "a = (key, v)" by (cases a)
  from Cons.prems have rest: "\<forall>a \<in> set as. p (fst a) = Some (snd a)"
    and here: "p key = Some v" by (simp_all add: a)
  show ?case
    using here by (simp add: a Cons.IH [OF rest])
qed

text \<open>
  C1. Applying the delta that \<open>compare\<close> computes from \<open>config\<close> and \<open>patched_config\<close> back
  onto \<open>config\<close> gives \<open>patched_config\<close>: whatever the order in which the loop of
  \<open>compare\<close> visits the keys of the two dictionaries, \<open>compare\<close> returns a delta \<open>d\<close>, and
  \<open>apply_delta\<close> (deletions first, then updates, then additions) maps \<open>config\<close> and \<open>d\<close> to
  a dictionary equal to \<open>patched_config\<close>.
\<close>

theorem apply_delta_compare_roundtrip:
  assumes "set all_keys = dom config \<union> dom patched_config"
  shows "\<exists>d. compare all_keys config patched_config = Inr d \<and> apply_delta config d = patched_config"
proof -
  let ?adds = "map (\<lambda>k. (k, the (patched_config k))) (filter (\<lambda>k. config k = None) all_keys)"
  let ?dels = "filter (\<lambda>k. patched_config k = None) all_keys"
  let ?upds = "map (\<lambda>k. (k, the (config k), the (patched_config k)))
         (filter (\<lambda>k. config k \<noteq> None \<and> patched_config k \<noteq> None \<and> config k \<noteq> patched_config k) all_keys)"
  let ?d = "\<lparr>additions = ?adds, deletions = ?dels, updates = ?upds\<rparr>"
  have cmp: "compare all_keys config patched_config = Inr ?d"
    by (rule compare_buckets [OF assms])
  have keys: "\<And>k. k \<in> set all_keys \<longleftrightarrow> config k \<noteq> None \<or> patched_config k \<noteq> None"
    using assms by (auto simp: dom_def)
  have adds: "\<forall>a \<in> set ?adds. patched_config (fst a) = Some (snd a)"
    using keys by auto
  have upds: "\<forall>u \<in> set ?upds. patched_config (fst u) = Some (snd (snd u))"
    by auto
  have addkeys: "\<And>k. k \<in> fst ` set ?adds \<longleftrightarrow> config k = None \<and> patched_config k \<noteq> None"
    using keys by force
  have updkeys: "\<And>k. k \<in> fst ` set ?upds \<longleftrightarrow>
      config k \<noteq> None \<and> patched_config k \<noteq> None \<and> config k \<noteq> patched_config k"
    using keys by force
  have delkeys: "\<And>k. k \<in> set ?dels \<longleftrightarrow> config k \<noteq> None \<and> patched_config k = None"
    using keys by auto
  have "apply_delta config ?d k = patched_config k" for k
  proof -
    have "apply_delta config ?d k =
        (if k \<in> fst ` set ?adds then patched_config k
         else if k \<in> fst ` set ?upds then patched_config k
         else if k \<in> set ?dels then None else config k)"
      unfolding apply_delta_def
      by (simp only: delta.simps apply_additions_lookup [OF adds] apply_updates_lookup [OF upds]
            apply_deletions_lookup)
    also have "\<dots> = patched_config k"
      unfolding addkeys updkeys delkeys by (cases "config k"; cases "patched_config k") auto
    finally show ?thesis .
  qed
  then have "apply_delta config ?d = patched_config" by (rule ext)
  with cmp show ?thesis by blast
qed

theorem apply_delta_compare_roundtrip_witness:
  "set [''a'', ''b'', ''c''] = dom [''a'' \<mapsto> 1::int, ''b'' \<mapsto> 2] \<union> dom [''b'' \<mapsto> 3::int, ''c'' \<mapsto> 4]
   \<and> compare [''a'', ''b'', ''c''] [''a'' \<mapsto> 1::int, ''b'' \<mapsto> 2] [''b'' \<mapsto> 3, ''c'' \<mapsto> 4]
       = Inr \<lparr>additions = [(''c'', 4)], deletions = [''a''], updates = [(''b'', 2, 3)]\<rparr>
   \<and> apply_delta [''a'' \<mapsto> 1::int, ''b'' \<mapsto> 2]
        \<lparr>additions = [(''c'', 4)], deletions = [''a''], updates = [(''b'', 2, 3)]\<rparr>
       = [''b'' \<mapsto> 3, ''c'' \<mapsto> 4]"
proof -
  have k: "set [''a'', ''b'', ''c''] = dom [''a'' \<mapsto> 1::int, ''b'' \<mapsto> 2] \<union> dom [''b'' \<mapsto> 3::int, ''c'' \<mapsto> 4]"
    by auto
  have c: "compare [''a'', ''b'', ''c''] [''a'' \<mapsto> 1::int, ''b'' \<mapsto> 2] [''b'' \<mapsto> 3, ''c'' \<mapsto> 4]
       = Inr \<lparr>additions = [(''c'', 4)], deletions = [''a''], updates = [(''b'', 2, 3)]\<rparr>"
    by (simp add: compare_def compare_step_def)
  from apply_delta_compare_roundtrip [OF k] c k show ?thesis by auto
qed

text \<open>
  C2. \<open>compare\<close> puts every key of \<open>keys(config) \<union> keys(patched_config)\<close> into exactly one
  of four classes: the additions are the keys of \<open>patched_config\<close> only (with the patched
  value), the deletions the keys of \<open>config\<close> only, the updates the keys of both whose
  values differ (with both values), and the keys left out of the delta are the keys of
  both with equal values. No key stands in two buckets or twice in one, and the buckets
  hold keys of the union only.
\<close>

theorem compare_classifies_keys:
  assumes "is_all_keys all_keys config patched_config"
  shows "\<exists>d. compare all_keys config patched_config = Inr d
      \<and> set (map fst (additions d)) = dom patched_config - dom config
      \<and> set (deletions d) = dom config - dom patched_config
      \<and> set (map fst (updates d)) = {k \<in> dom config \<inter> dom patched_config. config k \<noteq> patched_config k}
      \<and> (dom config \<union> dom patched_config)
           - (set (map fst (additions d)) \<union> set (deletions d) \<union> set (map fst (updates d)))
          = {k \<in> dom config \<inter> dom patched_config. config k = patched_config k}
      \<and> distinct (map fst (additions d) @ deletions d @ map fst (updates d))
      \<and> (\<forall>a \<in> set (additions d). patched_config (fst a) = Some (snd a))
      \<and> (\<forall>u \<in> set (updates d). config (fst u) = Some (fst (snd u))
             \<and> patched_config (fst u) = Some (snd (snd u)))"
proof -
  let ?A = "filter (\<lambda>k. config k = None) all_keys"
  let ?D = "filter (\<lambda>k. patched_config k = None) all_keys"
  let ?U = "filter (\<lambda>k. config k \<noteq> None \<and> patched_config k \<noteq> None \<and> config k \<noteq> patched_config k) all_keys"
  let ?d = "\<lparr>additions = map (\<lambda>k. (k, the (patched_config k))) ?A, deletions = ?D,
      updates = map (\<lambda>k. (k, the (config k), the (patched_config k))) ?U\<rparr>"
  from assms have dist: "distinct all_keys"
    and un: "set all_keys = dom config \<union> dom patched_config"
    by (simp_all add: is_all_keys_def)
  have cmp: "compare all_keys config patched_config = Inr ?d"
    by (rule compare_buckets [OF un])
  have fa: "map fst (additions ?d) = ?A" and fu: "map fst (updates ?d) = ?U" and fd: "deletions ?d = ?D"
    by (simp_all add: comp_def)
  have keys: "\<And>k. k \<in> set all_keys \<longleftrightarrow> config k \<noteq> None \<or> patched_config k \<noteq> None"
    using un by (auto simp: dom_def)
  have sa: "set ?A = dom patched_config - dom config"
    using keys by (auto simp: dom_def)
  have sd: "set ?D = dom config - dom patched_config"
    using keys by (auto simp: dom_def)
  have su: "set ?U = {k \<in> dom config \<inter> dom patched_config. config k \<noteq> patched_config k}"
    using keys by (auto simp: dom_def)
  have rest: "(dom config \<union> dom patched_config) - (set ?A \<union> set ?D \<union> set ?U)
      = {k \<in> dom config \<inter> dom patched_config. config k = patched_config k}"
    unfolding sa sd su by auto
  have disj: "distinct (?A @ ?D @ ?U)"
    using dist keys by (auto simp: distinct_filter)
  have va: "\<forall>a \<in> set (additions ?d). patched_config (fst a) = Some (snd a)"
    using keys by auto
  have vu: "\<forall>u \<in> set (updates ?d). config (fst u) = Some (fst (snd u))
             \<and> patched_config (fst u) = Some (snd (snd u))"
    by auto
  show ?thesis
    apply (rule exI [of _ ?d])
    unfolding fa fu fd
    using cmp sa sd su rest disj va vu by blast
qed

theorem compare_classifies_keys_witness:
  "is_all_keys [''a'', ''b'', ''c'', ''d'']
      [''a'' \<mapsto> 1::int, ''b'' \<mapsto> 2, ''d'' \<mapsto> 5] [''b'' \<mapsto> 3::int, ''c'' \<mapsto> 4, ''d'' \<mapsto> 5]
   \<and> compare [''a'', ''b'', ''c'', ''d'']
        [''a'' \<mapsto> 1::int, ''b'' \<mapsto> 2, ''d'' \<mapsto> 5] [''b'' \<mapsto> 3::int, ''c'' \<mapsto> 4, ''d'' \<mapsto> 5]
       = Inr \<lparr>additions = [(''c'', 4)], deletions = [''a''], updates = [(''b'', 2, 3)]\<rparr>
   \<and> dom [''b'' \<mapsto> 3::int, ''c'' \<mapsto> 4, ''d'' \<mapsto> 5] - dom [''a'' \<mapsto> 1::int, ''b'' \<mapsto> 2, ''d'' \<mapsto> 5] = {''c''}
   \<and> dom [''a'' \<mapsto> 1::int, ''b'' \<mapsto> 2, ''d'' \<mapsto> 5] - dom [''b'' \<mapsto> 3::int, ''c'' \<mapsto> 4, ''d'' \<mapsto> 5] = {''a''}"
proof -
  have k: "is_all_keys [''a'', ''b'', ''c'', ''d'']
      [''a'' \<mapsto> 1::int, ''b'' \<mapsto> 2, ''d'' \<mapsto> 5] [''b'' \<mapsto> 3::int, ''c'' \<mapsto> 4, ''d'' \<mapsto> 5]"
    by (auto simp: is_all_keys_def)
  have c: "compare [''a'', ''b'', ''c'', ''d'']
        [''a'' \<mapsto> 1::int, ''b'' \<mapsto> 2, ''d'' \<mapsto> 5] [''b'' \<mapsto> 3::int, ''c'' \<mapsto> 4, ''d'' \<mapsto> 5]
       = Inr \<lparr>additions = [(''c'', 4)], deletions = [''a''], updates = [(''b'', 2, 3)]\<rparr>"
    by (simp add: compare_def compare_step_def)
  from compare_classifies_keys [OF k] obtain d
    where d: "compare [''a'', ''b'', ''c'', ''d'']
        [''a'' \<mapsto> 1::int, ''b'' \<mapsto> 2, ''d'' \<mapsto> 5] [''b'' \<mapsto> 3::int, ''c'' \<mapsto> 4, ''d'' \<mapsto> 5] = Inr d"
      and a: "set (map fst (additions d))
        = dom [''b'' \<mapsto> 3::int, ''c'' \<mapsto> 4, ''d'' \<mapsto> 5] - dom [''a'' \<mapsto> 1::int, ''b'' \<mapsto> 2, ''d'' \<mapsto> 5]"
      and dl: "set (deletions d)
        = dom [''a'' \<mapsto> 1::int, ''b'' \<mapsto> 2, ''d'' \<mapsto> 5] - dom [''b'' \<mapsto> 3::int, ''c'' \<mapsto> 4, ''d'' \<mapsto> 5]"
    by blast
  from d c have "d = \<lparr>additions = [(''c'', 4)], deletions = [''a''], updates = [(''b'', 2, 3)]\<rparr>"
    by simp
  with a dl have "dom [''b'' \<mapsto> 3::int, ''c'' \<mapsto> 4, ''d'' \<mapsto> 5] - dom [''a'' \<mapsto> 1::int, ''b'' \<mapsto> 2, ''d'' \<mapsto> 5] = {''c''}"
    and "dom [''a'' \<mapsto> 1::int, ''b'' \<mapsto> 2, ''d'' \<mapsto> 5] - dom [''b'' \<mapsto> 3::int, ''c'' \<mapsto> 4, ''d'' \<mapsto> 5] = {''a''}"
    by simp_all
  with k c show ?thesis by blast
qed

text \<open>
  C9 (as the code has it). \<open>compare\<close> does not sort: each bucket lists its keys in the
  order in which the loop visits the set \<open>all_keys\<close>, an order the program does not fix.
  The additions are the visited keys missing from \<open>config\<close>, the deletions the visited
  keys missing from \<open>patched_config\<close>, the updates the visited keys of both with differing
  values, each in visiting order. Whenever the visiting order is sorted by key, so are
  the three buckets; for another visiting order they need not be.
\<close>

theorem compare_buckets_follow_iteration_order:
  assumes "is_all_keys all_keys config patched_config"
  shows "\<exists>d. compare all_keys config patched_config = Inr d
      \<and> map fst (additions d) = filter (\<lambda>k. config k = None) all_keys
      \<and> deletions d = filter (\<lambda>k. patched_config k = None) all_keys
      \<and> map fst (updates d) =
          filter (\<lambda>k. config k \<noteq> None \<and> patched_config k \<noteq> None \<and> config k \<noteq> patched_config k) all_keys
      \<and> (sorted all_keys \<longrightarrow>
            sorted (map fst (additions d)) \<and> sorted (deletions d) \<and> sorted (map fst (updates d)))"
proof -
  from assms have un: "set all_keys = dom config \<union> dom patched_config"
    by (simp add: is_all_keys_def)
  show ?thesis
    unfolding compare_buckets [OF un] by (simp add: comp_def sorted_wrt_filter)
qed

theorem compare_buckets_follow_iteration_order_witness:
  "is_all_keys [''f'', ''b'', ''d'', ''e'', ''a'', ''c'']
      [''a'' \<mapsto> 1::int, ''b'' \<mapsto> 2, ''c'' \<mapsto> 3, ''d'' \<mapsto> 4]
      [''c'' \<mapsto> 30::int, ''d'' \<mapsto> 40, ''e'' \<mapsto> 5, ''f'' \<mapsto> 6]
   \<and> compare [''f'', ''b'', ''d'', ''e'', ''a'', ''c'']
      [''a'' \<mapsto> 1::int, ''b'' \<mapsto> 2, ''c'' \<mapsto> 3, ''d'' \<mapsto> 4]
      [''c'' \<mapsto> 30::int, ''d'' \<mapsto> 40, ''e'' \<mapsto> 5, ''f'' \<mapsto> 6]
       = Inr \<lparr>additions = [(''f'', 6), (''e'', 5)], deletions = [''b'', ''a''],
              updates = [(''d'', 4, 40), (''c'', 3, 30)]\<rparr>
   \<and> is_all_keys [''a'', ''b'', ''c'', ''d'', ''e'', ''f'']
      [''a'' \<mapsto> 1::int, ''b'' \<mapsto> 2, ''c'' \<mapsto> 3, ''d'' \<mapsto> 4]
      [''c'' \<mapsto> 30::int, ''d'' \<mapsto> 40, ''e'' \<mapsto> 5, ''f'' \<mapsto> 6]
   \<and> sorted [''a'', ''b'', ''c'', ''d'', ''e'', ''f'']
   \<and> compare [''a'', ''b'', ''c'', ''d'', ''e'', ''f'']
      [''a'' \<mapsto> 1::int, ''b'' \<mapsto> 2, ''c'' \<mapsto> 3, ''d'' \<mapsto> 4]
      [''c'' \<mapsto> 30::int, ''d'' \<mapsto> 40, ''e'' \<mapsto> 5, ''f'' \<mapsto> 6]
       = Inr \<lparr>additions = [(''e'', 5), (''f'', 6)], deletions = [''a'', ''b''],
              updates = [(''c'', 3, 30), (''d'', 4, 40)]\<rparr>
   \<and> sorted (map fst [(''e'', 5::int), (''f'', 6)]) \<and> sorted [''a'', ''b'']
   \<and> sorted (map fst [(''c'', 3::int, 30::int), (''d'', 4, 40)])"
proof -
  let ?c = "[''a'' \<mapsto> 1::int, ''b'' \<mapsto> 2, ''c'' \<mapsto> 3, ''d'' \<mapsto> 4]"
  let ?p = "[''c'' \<mapsto> 30::int, ''d'' \<mapsto> 40, ''e'' \<mapsto> 5, ''f'' \<mapsto> 6]"
  have k1: "is_all_keys [''f'', ''b'', ''d'', ''e'', ''a'', ''c''] ?c ?p"
    unfolding is_all_keys_def by (intro conjI) (simp, auto)
  have k2: "is_all_keys [''a'', ''b'', ''c'', ''d'', ''e'', ''f''] ?c ?p"
    unfolding is_all_keys_def by (intro conjI) (simp, auto)
  have s: "sorted [''a'', ''b'', ''c'', ''d'', ''e'', ''f'']" by simp
  have c1: "compare [''f'', ''b'', ''d'', ''e'', ''a'', ''c''] ?c ?p = Inr \<lparr>additions = [(''f'', 6), (''e'', 5)], deletions = [''b'', ''a''],
              updates = [(''d'', 4, 40), (''c'', 3, 30)]\<rparr>"
    by (simp add: compare_def compare_step_def)
  have c2: "compare [''a'', ''b'', ''c'', ''d'', ''e'', ''f''] ?c ?p = Inr \<lparr>additions = [(''e'', 5), (''f'', 6)], deletions = [''a'', ''b''],
              updates = [(''c'', 3, 30), (''d'', 4, 40)]\<rparr>"
    by (simp add: compare_def compare_step_def)
  from compare_buckets_follow_iteration_order [OF k1] obtain d1
    where d1: "compare [''f'', ''b'', ''d'', ''e'', ''a'', ''c''] ?c ?p = Inr d1"
      and a1: "map fst (additions d1) = filter (\<lambda>k. ?c k = None) [''f'', ''b'', ''d'', ''e'', ''a'', ''c'']"
    by blast
  from compare_buckets_follow_iteration_order [OF k2] s obtain d2
    where d2: "compare [''a'', ''b'', ''c'', ''d'', ''e'', ''f''] ?c ?p = Inr d2"
      and s2: "sorted (map fst (additions d2)) \<and> sorted (deletions d2) \<and> sorted (map fst (updates d2))"
    by blast
  from d2 c2 have "d2 = \<lparr>additions = [(''e'', 5), (''f'', 6)], deletions = [''a'', ''b''],
              updates = [(''c'', 3, 30), (''d'', 4, 40)]\<rparr>" by simp
  with s2 have "sorted (map fst [(''e'', 5::int), (''f'', 6)]) \<and> sorted [''a'', ''b'']
      \<and> sorted (map fst [(''c'', 3::int, 30::int), (''d'', 4, 40)])"
    by simp
  with k1 k2 s c1 c2 show ?thesis by (intro conjI) simp_all
qed

text \<open>
  The claim C9 as the specification states it fails: for the same two dictionaries, the
  visiting order \<open>b, a\<close> of the key set gives the additions in the order \<open>b, a\<close>, which
  is not sorted by key, and the visiting order \<open>a, b\<close> gives another delta.
\<close>

theorem compare_buckets_sorted_counterexample:
  "is_all_keys [''b'', ''a''] Map.empty [''a'' \<mapsto> 1::int, ''b'' \<mapsto> 2]
   \<and> compare [''b'', ''a''] Map.empty [''a'' \<mapsto> 1::int, ''b'' \<mapsto> 2]
       = Inr \<lparr>additions = [(''b'', 2), (''a'', 1)], deletions = [], updates = []\<rparr>
   \<and> \<not> sorted (map fst [(''b'', 2::int), (''a'', 1)])
   \<and> is_all_keys [''a'', ''b''] Map.empty [''a'' \<mapsto> 1::int, ''b'' \<mapsto> 2]
   \<and> compare [''a'', ''b''] Map.empty [''a'' \<mapsto> 1::int, ''b'' \<mapsto> 2]
       \<noteq> compare [''b'', ''a''] Map.empty [''a'' \<mapsto> 1::int, ''b'' \<mapsto> 2]"
proof -
  have k1: "is_all_keys [''b'', ''a''] Map.empty [''a'' \<mapsto> 1::int, ''b'' \<mapsto> 2]"
    by (auto simp: is_all_keys_def)
  have k2: "is_all_keys [''a'', ''b''] Map.empty [''a'' \<mapsto> 1::int, ''b'' \<mapsto> 2]"
    by (auto simp: is_all_keys_def)
  have c: "compare [''b'', ''a''] Map.empty [''a'' \<mapsto> 1::int, ''b'' \<mapsto> 2]
       = Inr \<lparr>additions = [(''b'', 2), (''a'', 1)], deletions = [], updates = []\<rparr>"
    by (simp add: compare_def compare_step_def)
  have s: "\<not> sorted (map fst [(''b'', 2::int), (''a'', 1)])"
    by simp
  have n: "compare [''a'', ''b''] Map.empty [''a'' \<mapsto> 1::int, ''b'' \<mapsto> 2]
       \<noteq> compare [''b'', ''a''] Map.empty [''a'' \<mapsto> 1::int, ''b'' \<mapsto> 2]"
    by (simp add: compare_def compare_step_def)
  from k1 k2 c s n show ?thesis by blast
qed
section \<open>Properties of the multiplicity parsing\<close>

lemma split_sep_nonempty: "split_sep s \<noteq> []"
  by (induction s rule: split_sep.induct) (auto split: list.splits)

lemma split_sep_first:
  "split_sep (d # rest) = p # ps \<Longrightarrow> (p = [] \<and> d = CHR ''.'') \<or> (\<exists>p'. p = d # p')"
  by (cases rest) (auto split: list.splits if_splits)

lemma join_split_sep: "join_sep (split_sep s) = s"
proof (induction s rule: split_sep.induct)
  case (3 c d rest)
  show ?case
  proof (cases "c = CHR ''.'' \<and> d = CHR ''.''")
    case True
    with 3 show ?thesis
      using split_sep_nonempty [of rest] by (cases "split_sep rest") auto
  next
    case False
    obtain p ps where sp: "split_sep (d # rest) = p # ps"
      using split_sep_nonempty [of "d # rest"] by (cases "split_sep (d # rest)") auto
    with 3 False have "join_sep (p # ps) = d # rest" by simp
    then have "join_sep ((c # p) # ps) = c # d # rest" by (cases ps) auto
    moreover from False sp have "split_sep (c # d # rest) = (c # p) # ps" by auto
    ultimately show ?thesis by simp
  qed
qed simp_all

lemma split_sep_none: "\<not> contains_sep s \<Longrightarrow> split_sep s = [s]"
  by (induction s rule: split_sep.induct) auto

lemma split_sep_some: "contains_sep s \<Longrightarrow> 2 \<le> length (split_sep s)"
proof (induction s rule: split_sep.induct)
  case (3 c d rest)
  then show ?case
    using split_sep_nonempty [of rest] split_sep_nonempty [of "d # rest"]
    by (cases "split_sep rest"; cases "split_sep (d # rest)") (auto split: if_splits)
qed simp_all

lemma contains_sep_Cons:
  "contains_sep (c # s) \<longleftrightarrow> (c = CHR ''.'' \<and> (\<exists>t. s = CHR ''.'' # t)) \<or> contains_sep s"
  by (cases s) auto

lemma split_sep_butlast: "p \<in> set (butlast (split_sep s)) \<Longrightarrow> \<not> contains_sep (p @ ''.'')"
proof (induction s arbitrary: p rule: split_sep.induct)
  case (3 c d rest)
  show ?case
  proof (cases "c = CHR ''.'' \<and> d = CHR ''.''")
    case True
    with 3 show ?thesis
      using split_sep_nonempty [of rest] by (auto split: if_splits)
  next
    case False
    obtain q qs where sp: "split_sep (d # rest) = q # qs"
      using split_sep_nonempty [of "d # rest"] by (cases "split_sep (d # rest)") auto
    from "3.prems" False sp have mem: "p \<in> set (butlast ((c # q) # qs))" by simp
    show ?thesis
    proof (cases "p \<in> set (butlast qs)")
      case True
      then have "p \<in> set (butlast (split_sep (d # rest)))" by (auto simp: sp)
      with "3.IH"(2) False show ?thesis by blast
    next
      case notin: False
      with mem have p: "p = c # q" and qs: "qs \<noteq> []" by (auto split: if_splits)
      from qs have "q \<in> set (butlast (split_sep (d # rest)))" by (simp add: sp)
      with "3.IH"(2) False have nq: "\<not> contains_sep (q @ ''.'')" by blast
      from split_sep_first [OF sp] False nq show ?thesis
        by (auto simp: p contains_sep_Cons)
    qed
  qed
qed simp_all

lemma split_sep_last: "\<not> contains_sep (last (split_sep s))"
proof (induction s rule: split_sep.induct)
  case (3 c d rest)
  show ?case
  proof (cases "c = CHR ''.'' \<and> d = CHR ''.''")
    case True
    with 3 show ?thesis
      using split_sep_nonempty [of rest] by simp
  next
    case False
    obtain q qs where sp: "split_sep (d # rest) = q # qs"
      using split_sep_nonempty [of "d # rest"] by (cases "split_sep (d # rest)") auto
    from "3.IH"(2) False sp have nl: "\<not> contains_sep (last (q # qs))" by simp
    from False sp have eq: "split_sep (c # d # rest) = (c # q) # qs" by auto
    show ?thesis
      unfolding eq
    proof (cases qs)
      case Nil
      with nl split_sep_first [OF sp] False show "\<not> contains_sep (last ((c # q) # qs))"
        by (auto simp: contains_sep_Cons)
    next
      case (Cons a list)
      with nl show "\<not> contains_sep (last ((c # q) # qs))" by simp
    qed
  qed
qed simp_all

lemma contains_sep_iff: "contains_sep s \<longleftrightarrow> (\<exists>a b. s = a @ ''..'' @ b)"
proof
  show "contains_sep s \<Longrightarrow> \<exists>a b. s = a @ ''..'' @ b"
  proof (induction s rule: contains_sep.induct)
    case (3 c d rest)
    show ?case
    proof (cases "c = CHR ''.'' \<and> d = CHR ''.''")
      case True
      then have "c # d # rest = [] @ ''..'' @ rest" by simp
      then show ?thesis by blast
    next
      case False
      with 3 obtain a b where "d # rest = a @ ''..'' @ b" by auto
      then have "c # d # rest = (c # a) @ ''..'' @ b" by simp
      then show ?thesis by blast
    qed
  qed simp_all
next
  have "contains_sep (a @ ''..'' @ b)" for a b
    by (induction a) (auto simp: contains_sep_Cons)
  then show "\<exists>a b. s = a @ ''..'' @ b \<Longrightarrow> contains_sep s" by blast
qed


lemma split_sep_first_part:
  "\<not> contains_sep (a @ ''.'') \<Longrightarrow> split_sep (a @ ''..'' @ b) = a # split_sep b"
proof (induction a)
  case Nil
  show ?case by simp
next
  case (Cons c a)
  from Cons.prems have na: "\<not> contains_sep (a @ ''.'')"
    and nc: "\<not> (c = CHR ''.'' \<and> hd (a @ ''.'') = CHR ''.'')"
    by (cases a; auto)+
  obtain d rest where dr: "a @ ''..'' @ b = d # rest" and d: "d = hd (a @ ''.'')"
    by (cases a) auto
  from Cons.IH [OF na] dr have "split_sep (d # rest) = a # split_sep b" by simp
  with nc d have "split_sep (c # d # rest) = (c # a) # split_sep b" by auto
  with dr show ?case by simp
qed

text \<open>
  C3. The pair (min, max) that \<open>parse\<close> stores for a multiplicity string \<open>m\<close>: when \<open>m\<close> does
  not contain \<open>".."\<close>, both are \<open>m\<close> itself. When it does, \<open>m\<close> is its parts joined by
  \<open>".."\<close>, where the separators are the occurrences of \<open>".."\<close> found from left to right (no
  part but the last, extended by the dot that follows it, contains \<open>".."\<close>, and the last
  part contains none); min is the first part, the text before the first separator, and
  max is the last part, the text after the last separator. In particular a string
  \<open>a..b\<close> with its only separator between \<open>a\<close> and \<open>b\<close> gives \<open>(a, b)\<close>; \<open>"0..*"\<close> gives
  \<open>("0", "*")\<close>, \<open>"1"\<close> gives \<open>("1", "1")\<close> and \<open>"1..5"\<close> gives \<open>("1", "5")\<close>.
\<close>

theorem multiplicity_bounds_parts:
  "(\<not> contains_sep m \<longrightarrow> multiplicity_bounds m = (m, m))
   \<and> (contains_sep m \<longrightarrow>
        (\<exists>parts. m = join_sep parts \<and> 2 \<le> length parts
           \<and> (\<forall>p \<in> set (butlast parts). \<not> contains_sep (p @ ''.''))
           \<and> \<not> contains_sep (last parts)
           \<and> multiplicity_bounds m = (hd parts, last parts)))
   \<and> (contains_sep m \<longleftrightarrow> (\<exists>a b. m = a @ ''..'' @ b))
   \<and> (\<forall>a b. \<not> contains_sep (a @ ''.'') \<and> \<not> contains_sep b \<longrightarrow>
          multiplicity_bounds (a @ ''..'' @ b) = (a, b))
   \<and> multiplicity_bounds ''0..*'' = (''0'', ''*'')
   \<and> multiplicity_bounds ''1'' = (''1'', ''1'')
   \<and> multiplicity_bounds ''1..5'' = (''1'', ''5'')"
proof -
  have none: "\<not> contains_sep m \<longrightarrow> multiplicity_bounds m = (m, m)"
    by (simp add: multiplicity_bounds_def split_sep_none)
  have some: "contains_sep m \<longrightarrow>
        (\<exists>parts. m = join_sep parts \<and> 2 \<le> length parts
           \<and> (\<forall>p \<in> set (butlast parts). \<not> contains_sep (p @ ''.''))
           \<and> \<not> contains_sep (last parts)
           \<and> multiplicity_bounds m = (hd parts, last parts))"
  proof
    assume c: "contains_sep m"
    have "m = join_sep (split_sep m)" by (simp add: join_split_sep)
    moreover have "2 \<le> length (split_sep m)" by (rule split_sep_some [OF c])
    moreover have "\<forall>p \<in> set (butlast (split_sep m)). \<not> contains_sep (p @ ''.'')"
      using split_sep_butlast by blast
    moreover have "\<not> contains_sep (last (split_sep m))" by (rule split_sep_last)
    moreover have "multiplicity_bounds m = (hd (split_sep m), last (split_sep m))"
      using c by (simp add: multiplicity_bounds_def)
    ultimately show "\<exists>parts. m = join_sep parts \<and> 2 \<le> length parts
           \<and> (\<forall>p \<in> set (butlast parts). \<not> contains_sep (p @ ''.''))
           \<and> \<not> contains_sep (last parts)
           \<and> multiplicity_bounds m = (hd parts, last parts)"
      by blast
  qed
  have one: "\<forall>a b. \<not> contains_sep (a @ ''.'') \<and> \<not> contains_sep b \<longrightarrow>
          multiplicity_bounds (a @ ''..'' @ b) = (a, b)"
  proof (intro allI impI)
    fix a b :: string
    assume h: "\<not> contains_sep (a @ ''.'') \<and> \<not> contains_sep b"
    then have "split_sep (a @ ''..'' @ b) = [a, b]"
      using split_sep_first_part [of a b] split_sep_none [of b] by simp
    moreover have "contains_sep (a @ ''..'' @ b)"
      unfolding contains_sep_iff by blast
    ultimately show "multiplicity_bounds (a @ ''..'' @ b) = (a, b)"
      by (simp add: multiplicity_bounds_def)
  qed
  have ex: "multiplicity_bounds ''0..*'' = (''0'', ''*'')"
    "multiplicity_bounds ''1'' = (''1'', ''1'')"
    "multiplicity_bounds ''1..5'' = (''1'', ''5'')"
    by (simp_all add: multiplicity_bounds_def)
  from none some one ex contains_sep_iff [of m] show ?thesis by blast
qed

theorem multiplicity_bounds_parts_witness:
  "contains_sep ''0..4'' \<and> multiplicity_bounds ''0..4'' = (''0'', ''4'')
   \<and> \<not> contains_sep ''12'' \<and> multiplicity_bounds ''12'' = (''12'', ''12'')
   \<and> split_sep ''1...5'' = [''1'', ''.5''] \<and> multiplicity_bounds ''1...5'' = (''1'', ''.5'')"
proof -
  have d: "split_sep ''1...5'' = [''1'', ''.5'']" "multiplicity_bounds ''1...5'' = (''1'', ''.5'')"
    by (simp_all add: multiplicity_bounds_def)
  have c: "contains_sep ''0..4''" and n: "\<not> contains_sep ''12''" by simp_all
  have h: "\<not> contains_sep (''0'' @ ''.'') \<and> \<not> contains_sep ''4''" by simp
  from multiplicity_bounds_parts [of "''0..4''"] h have "multiplicity_bounds ''0..4'' = (''0'', ''4'')"
    by (metis append_Cons append_Nil)
  moreover from multiplicity_bounds_parts [of "''12''"] n have "multiplicity_bounds ''12'' = (''12'', ''12'')"
    by blast
  ultimately show ?thesis using c n d by blast
qed

section \<open>Properties of MetaJsonGenerator.generate\<close>

lemma attribute_parameters_eq:
  "attribute_parameters attrs ps = ps @ map attribute_parameter attrs"
  by (induction attrs arbitrary: ps) (simp_all add: attribute_parameter_def)

lemma child_parameters_eq:
  "child_parameters children ps = ps @ map child_parameter children"
proof (induction children arbitrary: ps)
  case Nil
  show ?case by simp
next
  case (Cons child children)
  obtain c mn mx where "child = (c, mn, mx)" by (cases child)
  then show ?case by (simp add: Cons.IH child_parameter_def)
qed

lemma meta_json_loop_eq:
  "meta_json_loop model result = result @ map (\<lambda>(k, c). class_entry_of k c) model"
proof (induction model arbitrary: result)
  case Nil
  show ?case by simp
next
  case (Cons kc model)
  obtain k c where "kc = (k, c)" by (cases kc)
  then show ?case by (simp add: Cons.IH)
qed

lemma meta_json_generate_eq:
  "meta_json_generate model = map (\<lambda>(k, c). class_entry_of k c) model"
  by (simp add: meta_json_generate_def meta_json_loop_eq)

lemma class_entry_of_simps:
  "entry_class (class_entry_of k c) = k"
  "entry_parameters (class_entry_of k c) =
     map attribute_parameter (attributes c) @ map child_parameter (child_classes c)"
  "entry_min (class_entry_of k c) =
     (case child_classes c of [] \<Rightarrow> None | child # rest \<Rightarrow> Some (fst (snd child)))"
  "entry_max (class_entry_of k c) =
     (case child_classes c of [] \<Rightarrow> None | child # rest \<Rightarrow> Some (snd (snd child)))"
  by (auto simp: class_entry_of_def Let_def attribute_parameters_eq child_parameters_eq
      split: list.splits)

text \<open>
  C6. \<open>MetaJsonGenerator.generate\<close> produces one entry per class of the mapping, in the
  order of the mapping and whether or not the class can be reached from a root: the
  entries' class names are the keys of the mapping. The parameters of each entry are
  one \<open>{name, type}\<close> entry per attribute followed by one \<open>{name: child, type: "class"}\<close>
  entry per child, each group in stored order, so that their number is the number of
  attributes plus the number of children.
\<close>

theorem meta_json_generate_entries:
  "length (meta_json_generate model) = length model
   \<and> map entry_class (meta_json_generate model) = map fst model
   \<and> map entry_parameters (meta_json_generate model) =
       map (\<lambda>(k, c). map attribute_parameter (attributes c) @ map child_parameter (child_classes c)) model
   \<and> map (\<lambda>e. length (entry_parameters e)) (meta_json_generate model) =
       map (\<lambda>(k, c). length (attributes c) + length (child_classes c)) model"
  by (simp add: meta_json_generate_eq comp_def case_prod_unfold class_entry_of_simps)

text \<open>
  C7. The keys \<open>min\<close> and \<open>max\<close> of a class's entry exist exactly when the class has a
  child, and they are then the min and max of the first child only, whatever the other
  children carry.
\<close>

theorem meta_json_generate_min_max:
  "map (\<lambda>e. (entry_min e, entry_max e)) (meta_json_generate model) =
     map (\<lambda>(k, c). case child_classes c of
                      [] \<Rightarrow> (None, None)
                    | child # rest \<Rightarrow> (Some (fst (snd child)), Some (snd (snd child)))) model
   \<and> map (\<lambda>e. entry_min e \<noteq> None) (meta_json_generate model) =
       map (\<lambda>(k, c). child_classes c \<noteq> []) model
   \<and> map (\<lambda>e. entry_max e \<noteq> None) (meta_json_generate model) =
       map (\<lambda>(k, c). child_classes c \<noteq> []) model"
  by (simp add: meta_json_generate_eq comp_def case_prod_unfold class_entry_of_simps
      split: list.splits)

theorem meta_json_generate_entries_example:
  "map entry_class (meta_json_generate
      [(''Robot'', \<lparr>name = ''Robot'', is_root = True, documentation = ''r'',
          attributes = [\<lparr>attr_name = ''id'', attr_type = ''int''\<rparr>],
          child_classes = [(''Engine'', ''1'', ''1''), (''Wheel'', ''0'', ''4'')]\<rparr>),
       (''Spare'', \<lparr>name = ''Spare'', is_root = False, documentation = '''',
          attributes = [], child_classes = []\<rparr>)])
     = [''Robot'', ''Spare'']
   \<and> map entry_parameters (meta_json_generate
      [(''Robot'', \<lparr>name = ''Robot'', is_root = True, documentation = ''r'',
          attributes = [\<lparr>attr_name = ''id'', attr_type = ''int''\<rparr>],
          child_classes = [(''Engine'', ''1'', ''1''), (''Wheel'', ''0'', ''4'')]\<rparr>),
       (''Spare'', \<lparr>name = ''Spare'', is_root = False, documentation = '''',
          attributes = [], child_classes = []\<rparr>)])
     = [[\<lparr>param_name = ''id'', param_type = ''int''\<rparr>,
         \<lparr>param_name = ''Engine'', param_type = ''class''\<rparr>,
         \<lparr>param_name = ''Wheel'', param_type = ''class''\<rparr>], []]"
  using meta_json_generate_entries
    [of "[(''Robot'', \<lparr>name = ''Robot'', is_root = True, documentation = ''r'',
          attributes = [\<lparr>attr_name = ''id'', attr_type = ''int''\<rparr>],
          child_classes = [(''Engine'', ''1'', ''1''), (''Wheel'', ''0'', ''4'')]\<rparr>),
       (''Spare'', \<lparr>name = ''Spare'', is_root = False, documentation = '''',
          attributes = [], child_classes = []\<rparr>)]"]
  by (simp add: attribute_parameter_def child_parameter_def)

theorem meta_json_generate_min_max_example:
  "map (\<lambda>e. (entry_min e, entry_max e)) (meta_json_generate
      [(''Robot'', \<lparr>name = ''Robot'', is_root = True, documentation = ''r'',
          attributes = [\<lparr>attr_name = ''id'', attr_type = ''int''\<rparr>],
          child_classes = [(''Engine'', ''1'', ''1''), (''Wheel'', ''0'', ''4'')]\<rparr>),
       (''Spare'', \<lparr>name = ''Spare'', is_root = False, documentation = '''',
          attributes = [], child_classes = []\<rparr>)])
     = [(Some ''1'', Some ''1''), (None, None)]"
  using meta_json_generate_min_max
    [of "[(''Robot'', \<lparr>name = ''Robot'', is_root = True, documentation = ''r'',
          attributes = [\<lparr>attr_name = ''id'', attr_type = ''int''\<rparr>],
          child_classes = [(''Engine'', ''1'', ''1''), (''Wheel'', ''0'', ''4'')]\<rparr>),
       (''Spare'', \<lparr>name = ''Spare'', is_root = False, documentation = '''',
          attributes = [], child_classes = []\<rparr>)]"]
  by simp


section \<open>Properties of ConfigXmlGenerator.generate\<close>





lemma build_no_ValueError:
  "build_xml limit model class_name \<noteq> Inl (ValueError msg)"
  "build_children limit model children element \<noteq> Inl (ValueError msg)"
  by (induction limit model class_name and limit model children element
      rule: build_xml_build_children.induct)
    (auto split: option.splits sum.splits)

lemma build_KeyError:
  "build_xml limit model class_name = Inl (KeyError n) \<Longrightarrow> map_of model n = None"
  "build_children limit model children element = Inl (KeyError n) \<Longrightarrow> map_of model n = None"
  by (induction limit model class_name and limit model children element
      rule: build_xml_build_children.induct)
    (auto split: option.splits sum.splits)
















section \<open>Properties of ModelParser.parse\<close>

lemma map_fst_dict_set:
  "map fst (dict_set k v d) = (if k \<in> set (map fst d) then map fst d else map fst d @ [k])"
  by (induction d) (force split: if_splits)+

lemma distinct_dict_set: "distinct (map fst d) \<Longrightarrow> distinct (map fst (dict_set k v d))"
  by (simp add: map_fst_dict_set)

lemma set_dict_set: "set (dict_set k v d) \<subseteq> insert (k, v) (set d)"
  by (induction d) (auto split: if_splits)

lemma dict_set_update:
  "distinct (map fst d) \<Longrightarrow> map_of d k = Some v \<Longrightarrow>
   dict_set k (f v) d = map (\<lambda>(k', w). (k', if k' = k then f w else w)) d"
proof (induction d)
  case Nil
  then show ?case by simp
next
  case (Cons kw d)
  obtain k' w where kw: "kw = (k', w)" by (cases kw)
  show ?case
  proof (cases "k' = k")
    case True
    with Cons.prems kw have w: "w = v" and notin: "k \<notin> fst ` set d" by auto
    from notin have "map (\<lambda>(k', w). (k', if k' = k then f w else w)) d = d"
      by (intro map_idI) (auto simp: image_iff)
    with True w kw show ?thesis by simp
  next
    case False
    with Cons kw show ?thesis by simp
  qed
qed

lemma resolve_aggregations_eq:
  "distinct (map fst classes) \<Longrightarrow>
   resolve_aggregations aggs classes = map (add_children aggs) classes"
proof (induction aggs arbitrary: classes)
  case Nil
  show ?case by (simp add: add_children_def map_idI)
next
  case (Cons agg aggs)
  show ?case
  proof (cases "map_of classes (target agg)")
    case None
    then have "target agg \<notin> fst ` set classes" by (simp add: map_of_eq_None_iff)
    then have "map (add_children (agg # aggs)) classes = map (add_children aggs) classes"
      by (intro map_cong) (auto simp: add_children_def image_iff)
    with None Cons.IH [OF Cons.prems] show ?thesis by simp
  next
    case (Some tc)
    let ?f = "\<lambda>c. c\<lparr>child_classes := child_classes c @ [child_of agg]\<rparr>"
    let ?classes = "dict_set (target agg) (?f tc) classes"
    have upd: "?classes = map (\<lambda>(k', w). (k', if k' = target agg then ?f w else w)) classes"
      by (rule dict_set_update [OF Cons.prems Some])
    have dist: "distinct (map fst ?classes)"
      by (rule distinct_dict_set [OF Cons.prems])
    have "resolve_aggregations (agg # aggs) classes = resolve_aggregations aggs ?classes"
      by (simp add: Some)
    also have "\<dots> = map (add_children aggs) ?classes"
      by (rule Cons.IH [OF dist])
    also have "\<dots> = map (add_children (agg # aggs)) classes"
      unfolding upd by (auto simp: add_children_def)
    finally show ?thesis .
  qed
qed

lemma parse_attributes_keeps:
  "parse_attributes es cm = Inr cm' \<Longrightarrow> name cm' = name cm \<and> child_classes cm' = child_classes cm"
  by (induction es cm rule: parse_attributes.induct) (auto split: if_splits sum.splits)

lemma parse_class_fresh:
  "parse_class elem = Inr (k, c) \<Longrightarrow> name c = k \<and> child_classes c = []"
  by (auto simp: parse_class_def dest: parse_attributes_keeps split: sum.splits)

lemma fresh_classes_dict_set:
  "fresh_classes classes \<Longrightarrow> name c = k \<Longrightarrow> child_classes c = [] \<Longrightarrow>
   fresh_classes (dict_set k c classes)"
  using set_dict_set [of k c classes]
  by (auto simp: fresh_classes_def distinct_dict_set)

lemma parse_elements_fresh:
  "parse_elements es st = Inr st' \<Longrightarrow> fresh_classes (fst st) \<Longrightarrow> fresh_classes (fst st')"
proof (induction es st rule: parse_elements.induct)
  case (1 st)
  then show ?case by simp
next
  case (2 elem rest classes aggregations)
  show ?case
  proof (cases "elem_tag elem = ''Class''")
    case True
    with "2.prems"(1) obtain k c where pc: "parse_class elem = Inr (k, c)"
      and rest: "parse_elements rest (dict_set k c classes, aggregations) = Inr st'"
      by (auto split: sum.splits)
    from parse_class_fresh [OF pc] "2.prems"(2)
    have "fresh_classes (dict_set k c classes)" by (simp add: fresh_classes_dict_set)
    with "2.IH"(1) [OF True pc refl rest] show ?thesis by simp
  next
    case False
    show ?thesis
    proof (cases "elem_tag elem = ''Aggregation''")
      case True
      with False "2.prems"(1) obtain agg where pa: "parse_aggregation elem = Inr agg"
        and rest: "parse_elements rest (classes, aggregations @ [agg]) = Inr st'"
        by (auto split: sum.splits)
      from "2.IH"(2) [OF False True pa rest] "2.prems"(2) show ?thesis by simp
    next
      case other: False
      with False "2.prems"(1) have "parse_elements rest (classes, aggregations) = Inr st'"
        by simp
      from "2.IH"(3) [OF False other this] "2.prems"(2) show ?thesis by simp
    qed
  qed
qed

lemma parse_elements_aggregations:
  "parse_elements es (classes, aggs) =
     (case parse_elements es (classes, []) of
        Inl e \<Rightarrow> Inl e
      | Inr (classes', new) \<Rightarrow> Inr (classes', aggs @ new))"
proof (induction es arbitrary: classes aggs)
  case Nil
  show ?case by simp
next
  case (Cons elem rest)
  show ?case
  proof (cases "elem_tag elem = ''Class''")
    case True
    then show ?thesis
      by (auto simp: Cons.IH [of _ aggs] split: sum.splits)
  next
    case False
    show ?thesis
    proof (cases "elem_tag elem = ''Aggregation''")
      case True
      show ?thesis
      proof (cases "parse_aggregation elem")
        case (Inl e)
        with False True show ?thesis by simp
      next
        case (Inr agg)
        have "parse_elements (elem # rest) (classes, aggs) = parse_elements rest (classes, aggs @ [agg])"
          using False True Inr by simp
        moreover have "parse_elements (elem # rest) (classes, []) = parse_elements rest (classes, [agg])"
          using False True Inr by simp
        ultimately show ?thesis
          by (simp add: Cons.IH [of classes "aggs @ [agg]"] Cons.IH [of classes "[agg]"]
              split: sum.splits)
      qed
    next
      case other: False
      with False show ?thesis by (simp add: Cons.IH [of classes aggs])
    qed
  qed
qed

lemma parse_elements_append:
  "parse_elements (es1 @ es2) st =
     (case parse_elements es1 st of Inl e \<Rightarrow> Inl e | Inr st' \<Rightarrow> parse_elements es2 st')"
  by (induction es1 st rule: parse_elements.induct) (auto split: sum.splits)

lemma parse_elements_collects:
  "parse_elements es (classes, aggs) = Inr (classes', aggs') \<Longrightarrow>
   map Inr aggs' = map Inr aggs @ map parse_aggregation (filter (\<lambda>e. elem_tag e = ''Aggregation'') es)"
proof (induction es arbitrary: classes aggs)
  case Nil
  then show ?case by simp
next
  case (Cons elem rest)
  show ?case
  proof (cases "elem_tag elem = ''Class''")
    case True
    with Cons.prems obtain k c where
      "parse_elements rest (dict_set k c classes, aggs) = Inr (classes', aggs')"
      by (auto split: sum.splits)
    from Cons.IH [OF this] True show ?thesis by simp
  next
    case False
    show ?thesis
    proof (cases "elem_tag elem = ''Aggregation''")
      case True
      with False Cons.prems obtain agg where pa: "parse_aggregation elem = Inr agg"
        and rest: "parse_elements rest (classes, aggs @ [agg]) = Inr (classes', aggs')"
        by (auto split: sum.splits)
      from Cons.IH [OF rest] True pa show ?thesis by simp
    next
      case other: False
      with False Cons.prems have "parse_elements rest (classes, aggs) = Inr (classes', aggs')"
        by simp
      from Cons.IH [OF this] other show ?thesis by simp
    qed
  qed
qed

lemma fresh_classes_Nil: "fresh_classes []"
  by (simp add: fresh_classes_def)

lemma parse_Inr:
  assumes "parse root = Inr (model, aggs)"
  obtains classes where "parse_elements (elem_children root) ([], []) = Inr (classes, aggs)"
    and "fresh_classes classes" and "model = map (add_children aggs) classes"
proof -
  from assms obtain classes where pe: "parse_elements (elem_children root) ([], []) = Inr (classes, aggs)"
    and m: "model = resolve_aggregations aggs classes"
    by (auto simp: parse_def split: sum.splits)
  from parse_elements_fresh [OF pe] have fr: "fresh_classes classes"
    by (simp add: fresh_classes_Nil)
  then have "distinct (map fst classes)" by (simp add: fresh_classes_def)
  with m have "model = map (add_children aggs) classes" by (simp add: resolve_aggregations_eq)
  with pe fr show ?thesis by (rule that)
qed

lemma parse_children:
  assumes "parse root = Inr (model, aggs)"
  shows "list_all (\<lambda>(k, c). child_classes c = map child_of (filter (\<lambda>g. target g = k) aggs)) model"
proof -
  from assms obtain classes where fr: "fresh_classes classes"
    and m: "model = map (add_children aggs) classes"
    by (rule parse_Inr)
  from fr show ?thesis
    unfolding m by (auto simp: list_all_iff add_children_def fresh_classes_def)
qed

lemma parse_keyed:
  assumes "parse root = Inr (model, aggs)"
  shows "keyed model \<and> distinct (map fst model)"
proof -
  from assms obtain classes where fr: "fresh_classes classes"
    and m: "model = map (add_children aggs) classes"
    by (rule parse_Inr)
  have keys: "map fst model = map fst classes"
    unfolding m by (simp add: add_children_def comp_def)
  from fr have "keyed model"
    unfolding m by (auto simp: keyed_def list_all_iff add_children_def fresh_classes_def)
  moreover from fr have "distinct (map fst model)"
    unfolding keys by (simp add: fresh_classes_def)
  ultimately show ?thesis by simp
qed


text \<open>
  C8. An \<open>Aggregation\<close> element \<open>a\<close> that has its four attributes and whose target names
  no class of the model is skipped by \<open>parse\<close>: with \<open>a\<close> added anywhere among the
  elements, \<open>parse\<close> returns the same model as without it (no class gets a child, and
  nothing is raised), and where \<open>parse\<close> raised without \<open>a\<close> it raises the same error
  with it. For every model that \<open>parse\<close> returns, the aggregations it read are the
  \<open>Aggregation\<close> elements in document order, and the children of each class are exactly
  one child per aggregation whose target is that class, in that order.
\<close>

theorem parse_skips_unresolved_aggregation:
  assumes "elem_tag a = ''Aggregation''" and "parse_aggregation a = Inr agg"
  shows "(\<forall>model aggs.
            parse (Element tg at tx (es1 @ es2)) = Inr (model, aggs) \<and> map_of model (target agg) = None \<longrightarrow>
            (\<exists>aggs'. parse (Element tg at tx (es1 @ a # es2)) = Inr (model, aggs')))
      \<and> (\<forall>e. parse (Element tg at tx (es1 @ es2)) = Inl e \<longrightarrow>
            parse (Element tg at tx (es1 @ a # es2)) = Inl e)
      \<and> (\<forall>root model aggs. parse root = Inr (model, aggs) \<longrightarrow>
            map Inr aggs = map parse_aggregation
              (filter (\<lambda>e. elem_tag e = ''Aggregation'') (elem_children root))
            \<and> list_all (\<lambda>(k, c). child_classes c = map child_of (filter (\<lambda>g. target g = k) aggs)) model)"
proof (intro conjI allI impI)
  fix model aggs
  assume h: "parse (Element tg at tx (es1 @ es2)) = Inr (model, aggs) \<and> map_of model (target agg) = None"
  then obtain classes where pe: "parse_elements (es1 @ es2) ([], []) = Inr (classes, aggs)"
    and fr: "fresh_classes classes" and m: "model = map (add_children aggs) classes"
    by (auto elim: parse_Inr)
  from pe obtain c1 g1 where p1: "parse_elements es1 ([], []) = Inr (c1, g1)"
    and p2: "parse_elements es2 (c1, g1) = Inr (classes, aggs)"
    by (auto simp: parse_elements_append split: sum.splits)
  from p2 obtain new where p2': "parse_elements es2 (c1, []) = Inr (classes, new)"
    and aggs: "aggs = g1 @ new"
    by (subst (asm) parse_elements_aggregations) (auto split: sum.splits)
  have "parse_elements (a # es2) (c1, g1) = parse_elements es2 (c1, g1 @ [agg])"
    using assms by simp
  also have "\<dots> = Inr (classes, (g1 @ [agg]) @ new)"
    by (subst parse_elements_aggregations) (simp add: p2')
  finally have pa: "parse_elements (es1 @ a # es2) ([], []) = Inr (classes, g1 @ agg # new)"
    by (simp add: parse_elements_append p1)
  from h have "target agg \<notin> fst ` set model" by (simp add: map_of_eq_None_iff)
  then have notin: "target agg \<notin> fst ` set classes"
    unfolding m by (simp add: add_children_def image_image)
  have same: "map (add_children (g1 @ agg # new)) classes = map (add_children aggs) classes"
    using notin by (intro map_cong) (auto simp: add_children_def aggs image_iff)
  from fr have "distinct (map fst classes)" by (simp add: fresh_classes_def)
  then have "parse (Element tg at tx (es1 @ a # es2)) = Inr (model, g1 @ agg # new)"
    by (simp add: parse_def pa resolve_aggregations_eq same m)
  then show "\<exists>aggs'. parse (Element tg at tx (es1 @ a # es2)) = Inr (model, aggs')" by blast
next
  fix e
  assume h: "parse (Element tg at tx (es1 @ es2)) = Inl e"
  then have pe: "parse_elements (es1 @ es2) ([], []) = Inl e"
    by (auto simp: parse_def split: sum.splits)
  show "parse (Element tg at tx (es1 @ a # es2)) = Inl e"
  proof (cases "parse_elements es1 ([], [])")
    case (Inl e')
    with pe show ?thesis by (simp add: parse_def parse_elements_append)
  next
    case (Inr st)
    obtain c1 g1 where st: "st = (c1, g1)" by (cases st)
    from pe Inr st have "parse_elements es2 (c1, g1) = Inl e"
      by (simp add: parse_elements_append)
    then have e2: "parse_elements es2 (c1, []) = Inl e"
      by (subst (asm) parse_elements_aggregations) (auto split: sum.splits)
    have "parse_elements (a # es2) (c1, g1) = parse_elements es2 (c1, g1 @ [agg])"
      using assms by simp
    also have "\<dots> = Inl e"
      by (subst parse_elements_aggregations) (simp add: e2)
    finally show ?thesis
      by (simp add: parse_def parse_elements_append Inr st)
  qed
next
  fix root model aggs
  assume h: "parse root = Inr (model, aggs)"
  then obtain classes where "parse_elements (elem_children root) ([], []) = Inr (classes, aggs)"
    by (rule parse_Inr)
  from parse_elements_collects [OF this]
  show "map Inr aggs = map parse_aggregation
      (filter (\<lambda>e. elem_tag e = ''Aggregation'') (elem_children root))"
    by simp
next
  fix root model aggs
  assume "parse root = Inr (model, aggs)"
  then show "list_all (\<lambda>(k, c). child_classes c = map child_of (filter (\<lambda>g. target g = k) aggs)) model"
    by (rule parse_children)
qed

theorem parse_skips_unresolved_aggregation_witness:
  "elem_tag (Element ''Aggregation''
       [(''source'', ''Wheel''), (''target'', ''Car''), (''sourceMultiplicity'', ''0..4''),
        (''targetMultiplicity'', ''1'')] None []) = ''Aggregation''
   \<and> parse_aggregation (Element ''Aggregation''
       [(''source'', ''Wheel''), (''target'', ''Car''), (''sourceMultiplicity'', ''0..4''),
        (''targetMultiplicity'', ''1'')] None [])
     = Inr \<lparr>source = ''Wheel'', target = ''Car'', source_multiplicity = ''0..4'',
            target_multiplicity = ''1''\<rparr>
   \<and> parse (Element ''Model'' [] None
       ([Element ''Class'' [(''name'', ''Robot''), (''isRoot'', ''true'')] None []]
        @ [Element ''Class'' [(''name'', ''Wheel'')] None [],
           Element ''Aggregation''
             [(''source'', ''Wheel''), (''target'', ''Robot''), (''sourceMultiplicity'', ''1''),
              (''targetMultiplicity'', ''1'')] None []]))
     = Inr ([(''Robot'', \<lparr>name = ''Robot'', is_root = True, documentation = '''',
                attributes = [], child_classes = [(''Wheel'', ''1'', ''1'')]\<rparr>),
             (''Wheel'', \<lparr>name = ''Wheel'', is_root = False, documentation = '''',
                attributes = [], child_classes = []\<rparr>)],
            [\<lparr>source = ''Wheel'', target = ''Robot'', source_multiplicity = ''1'',
              target_multiplicity = ''1''\<rparr>])
   \<and> parse (Element ''Model'' [] None
       ([Element ''Class'' [(''name'', ''Robot''), (''isRoot'', ''true'')] None []]
        @ Element ''Aggregation''
           [(''source'', ''Wheel''), (''target'', ''Car''), (''sourceMultiplicity'', ''0..4''),
            (''targetMultiplicity'', ''1'')] None []
        # [Element ''Class'' [(''name'', ''Wheel'')] None [],
           Element ''Aggregation''
             [(''source'', ''Wheel''), (''target'', ''Robot''), (''sourceMultiplicity'', ''1''),
              (''targetMultiplicity'', ''1'')] None []]))
     = Inr ([(''Robot'', \<lparr>name = ''Robot'', is_root = True, documentation = '''',
                attributes = [], child_classes = [(''Wheel'', ''1'', ''1'')]\<rparr>),
             (''Wheel'', \<lparr>name = ''Wheel'', is_root = False, documentation = '''',
                attributes = [], child_classes = []\<rparr>)],
            [\<lparr>source = ''Wheel'', target = ''Car'', source_multiplicity = ''0..4'',
              target_multiplicity = ''1''\<rparr>,
             \<lparr>source = ''Wheel'', target = ''Robot'', source_multiplicity = ''1'',
              target_multiplicity = ''1''\<rparr>])"
proof -
  let ?a = "Element ''Aggregation''
       [(''source'', ''Wheel''), (''target'', ''Car''), (''sourceMultiplicity'', ''0..4''),
        (''targetMultiplicity'', ''1'')] None []"
  let ?agg = "\<lparr>source = ''Wheel'', target = ''Car'', source_multiplicity = ''0..4'',
            target_multiplicity = ''1''\<rparr>"
  let ?es1 = "[Element ''Class'' [(''name'', ''Robot''), (''isRoot'', ''true'')] None []]"
  let ?es2 = "[Element ''Class'' [(''name'', ''Wheel'')] None [],
           Element ''Aggregation''
             [(''source'', ''Wheel''), (''target'', ''Robot''), (''sourceMultiplicity'', ''1''),
              (''targetMultiplicity'', ''1'')] None []]"
  let ?model = "[(''Robot'', \<lparr>name = ''Robot'', is_root = True, documentation = '''',
                attributes = [], child_classes = [(''Wheel'', ''1'', ''1'')]\<rparr>),
             (''Wheel'', \<lparr>name = ''Wheel'', is_root = False, documentation = '''',
                attributes = [], child_classes = []\<rparr>)]"
  let ?g = "\<lparr>source = ''Wheel'', target = ''Robot'', source_multiplicity = ''1'',
              target_multiplicity = ''1''\<rparr>"
  have t: "elem_tag ?a = ''Aggregation''" by simp
  have p: "parse_aggregation ?a = Inr ?agg"
    by (simp add: parse_aggregation_def attrib_item_def)
  have without: "parse (Element ''Model'' [] None (?es1 @ ?es2)) = Inr (?model, [?g])"
    by (simp add: parse_def parse_class_def parse_aggregation_def attrib_item_def attrib_get_def
        lower_def lower_char_def child_of_def multiplicity_bounds_def)
  have unknown: "map_of ?model (target ?agg) = None" by simp
  from parse_skips_unresolved_aggregation [OF t p, of "''Model''" "[]" None ?es1 ?es2] without unknown
  obtain aggs' where w: "parse (Element ''Model'' [] None (?es1 @ ?a # ?es2)) = Inr (?model, aggs')"
    by blast
  have c: "map Inr aggs' = map parse_aggregation
      (filter (\<lambda>e. elem_tag e = ''Aggregation'') (elem_children (Element ''Model'' [] None (?es1 @ ?a # ?es2))))"
    using parse_skips_unresolved_aggregation [OF t p, of "''Model''" "[]" None ?es1 ?es2] w by blast
  then have "map Inr aggs' = [Inr ?agg, Inr ?g :: py_error + aggregation]"
    by (simp add: parse_aggregation_def attrib_item_def)
  then have "aggs' = [?agg, ?g]"
    by (auto simp: map_eq_Cons_conv)
  with t p without w show ?thesis by simp
qed


section \<open>Dangling children\<close>

lemma build_children_Inr:
  "build_children limit model children element = Inr t \<Longrightarrow>
   \<forall>child \<in> set children. \<exists>t'. build_xml limit model (fst child) = Inr t'"
proof (induction children arbitrary: element)
  case Nil
  show ?case by simp
next
  case (Cons child children)
  obtain c mn mx where child: "child = (c, mn, mx)" by (cases child)
  from Cons.prems obtain t' where t': "build_xml limit model c = Inr t'"
    and rest: "build_children limit model children (append_child element t') = Inr t"
    by (auto simp: child split: sum.splits)
  from Cons.IH [OF rest] t' show ?case by (simp add: child)
qed

lemma build_xml_Inr_reachable:
  "build_xml limit model k = Inr t \<Longrightarrow> reachable model k n \<Longrightarrow> map_of model n \<noteq> None"
proof (induction limit arbitrary: k t)
  case 0
  then show ?case by simp
next
  case (Suc limit)
  from Suc.prems(1) obtain c where c: "map_of model k = Some c"
    and ch: "build_children limit model (child_classes c)
        (add_attributes (attributes c) (Element k [] None [])) = Inr t"
    by (auto split: option.splits)
  from Suc.prems(2) show ?case
  proof (cases rule: reachable.cases)
    case here
    with c show ?thesis by simp
  next
    case (child c' child)
    from child(1) c have "c' = c" by simp
    with child(2) build_children_Inr [OF ch]
    obtain t' where "build_xml limit model (fst child) = Inr t'" by blast
    from Suc.IH [OF this child(3)] show ?thesis .
  qed
qed

lemma build_children_no_RecursionError:
  "\<forall>child \<in> set children. build_xml limit model (fst child) \<noteq> Inl RecursionError \<Longrightarrow>
   build_children limit model children element \<noteq> Inl RecursionError"
proof (induction children arbitrary: element)
  case Nil
  show ?case by simp
next
  case (Cons child children)
  obtain c mn mx where child: "child = (c, mn, mx)" by (cases child)
  from Cons.prems have here: "build_xml limit model c \<noteq> Inl RecursionError"
    and rest: "\<forall>child \<in> set children. build_xml limit model (fst child) \<noteq> Inl RecursionError"
    by (simp_all add: child)
  from here Cons.IH [OF rest] show ?case
    by (auto simp: child split: sum.splits)
qed

lemma build_xml_no_RecursionError:
  assumes "ranked rank model"
  shows "rank k < limit \<Longrightarrow> build_xml limit model k \<noteq> Inl RecursionError"
proof (induction limit arbitrary: k)
  case 0
  then show ?case by simp
next
  case (Suc limit)
  show ?case
  proof (cases "map_of model k")
    case None
    then show ?thesis by simp
  next
    case (Some c)
    then have mem: "(k, c) \<in> set model" by (rule map_of_SomeD)
    have "\<forall>child \<in> set (child_classes c). build_xml limit model (fst child) \<noteq> Inl RecursionError"
    proof
      fix child
      assume "child \<in> set (child_classes c)"
      with assms mem have "rank (fst child) < rank k"
        by (auto simp: ranked_def list_all_iff)
      with Suc.prems have "rank (fst child) < limit" by simp
      then show "build_xml limit model (fst child) \<noteq> Inl RecursionError" by (rule Suc.IH)
    qed
    then have "build_children limit model (child_classes c)
        (add_attributes (attributes c) (Element k [] None [])) \<noteq> Inl RecursionError"
      by (rule build_children_no_RecursionError)
    with Some show ?thesis by simp
  qed
qed

lemma generate_dangling_cases:
  assumes "find_root model = Some root_class"
    and "reachable model (name root_class) n" and "map_of model n = None"
  shows "config_xml_generate limit model = Inl RecursionError
    \<or> (\<exists>n'. config_xml_generate limit model = Inl (KeyError n') \<and> map_of model n' = None)"
proof -
  have gen: "config_xml_generate limit model = build_xml limit model (name root_class)"
    by (simp add: config_xml_generate_def assms(1))
  show ?thesis
  proof (cases "build_xml limit model (name root_class)")
    case (Inr t)
    from build_xml_Inr_reachable [OF Inr assms(2)] assms(3) show ?thesis by simp
  next
    case (Inl e)
    show ?thesis
    proof (cases e)
      case (KeyError n')
      with Inl build_KeyError(1) [of limit model "name root_class" n'] gen show ?thesis by simp
    next
      case (ValueError msg)
      with Inl build_no_ValueError(1) [of limit model "name root_class" msg] show ?thesis by simp
    next
      case RecursionError
      with Inl gen show ?thesis by simp
    qed
  qed
qed

lemma cyclic_robot_recursion:
  "build_xml limit
     [(''Robot'', \<lparr>name = ''Robot'', is_root = True, documentation = '''', attributes = [],
         child_classes = [(''Robot'', ''1'', ''1''), (''Ghost'', ''1'', ''1'')]\<rparr>)]
     ''Robot'' = Inl RecursionError"
  by (induction limit) simp_all

text \<open>
  C10 (as the code has it). \<open>parse\<close> gives the target class of an aggregation a child
  named after the aggregation's source whether or not the source names a class. When a
  model has a root and the expansion of the root can come to a child name that is not in
  the model, \<open>ConfigXmlGenerator.generate\<close> never returns a tree: it raises the \<open>KeyError\<close>
  of a name missing from the model (the unguarded \<open>model[class_name]\<close>), or it exceeds
  the recursion limit. In an acyclic model, with a recursion limit above the rank of the
  root, it raises the \<open>KeyError\<close>, which is not the \<open>ValueError\<close> of a missing root.
\<close>

theorem generate_dangling_child:
  assumes "find_root model = Some root_class"
    and "reachable model (name root_class) n" and "map_of model n = None"
  shows "(\<forall>limit. config_xml_generate limit model = Inl RecursionError
            \<or> (\<exists>n'. config_xml_generate limit model = Inl (KeyError n') \<and> map_of model n' = None))
    \<and> (\<forall>rank limit. ranked rank model \<and> rank (name root_class) < limit \<longrightarrow>
          (\<exists>n'. config_xml_generate limit model = Inl (KeyError n') \<and> map_of model n' = None))
    \<and> (\<forall>root m aggs g. parse root = Inr (m, aggs) \<and> g \<in> set aggs \<and> map_of m (target g) \<noteq> None \<longrightarrow>
          (\<exists>c. map_of m (target g) = Some c \<and> child_of g \<in> set (child_classes c)
             \<and> fst (child_of g) = source g))"
proof (intro conjI allI impI)
  fix limit
  show "config_xml_generate limit model = Inl RecursionError
      \<or> (\<exists>n'. config_xml_generate limit model = Inl (KeyError n') \<and> map_of model n' = None)"
    by (rule generate_dangling_cases [OF assms])
next
  fix rank limit
  assume h: "ranked rank model \<and> rank (name root_class) < limit"
  then have "build_xml limit model (name root_class) \<noteq> Inl RecursionError"
    using build_xml_no_RecursionError [of rank model "name root_class" limit] by blast
  then have "config_xml_generate limit model \<noteq> Inl RecursionError"
    by (simp add: config_xml_generate_def assms(1))
  with generate_dangling_cases [OF assms, of limit]
  show "\<exists>n'. config_xml_generate limit model = Inl (KeyError n') \<and> map_of model n' = None"
    by blast
next
  fix root m aggs g
  assume h: "parse root = Inr (m, aggs) \<and> g \<in> set aggs \<and> map_of m (target g) \<noteq> None"
  then obtain c where c: "map_of m (target g) = Some c" by blast
  then have "(target g, c) \<in> set m" by (rule map_of_SomeD)
  with h parse_children [of root m aggs]
  have "child_classes c = map child_of (filter (\<lambda>g'. target g' = target g) aggs)"
    by (auto simp: list_all_iff)
  with h have "child_of g \<in> set (child_classes c)" by simp
  with c show "\<exists>c. map_of m (target g) = Some c \<and> child_of g \<in> set (child_classes c)
      \<and> fst (child_of g) = source g"
    by (simp add: child_of_def)
qed

theorem generate_dangling_child_witness:
  "find_root
     [(''Robot'', \<lparr>name = ''Robot'', is_root = True, documentation = '''', attributes = [],
         child_classes = [(''Ghost'', ''1'', ''1'')]\<rparr>)]
     = Some \<lparr>name = ''Robot'', is_root = True, documentation = '''', attributes = [],
         child_classes = [(''Ghost'', ''1'', ''1'')]\<rparr>
   \<and> reachable
     [(''Robot'', \<lparr>name = ''Robot'', is_root = True, documentation = '''', attributes = [],
         child_classes = [(''Ghost'', ''1'', ''1'')]\<rparr>)] ''Robot'' ''Ghost''
   \<and> map_of
     [(''Robot'', \<lparr>name = ''Robot'', is_root = True, documentation = '''', attributes = [],
         child_classes = [(''Ghost'', ''1'', ''1'')]\<rparr>)] ''Ghost'' = None
   \<and> config_xml_generate 2
     [(''Robot'', \<lparr>name = ''Robot'', is_root = True, documentation = '''', attributes = [],
         child_classes = [(''Ghost'', ''1'', ''1'')]\<rparr>)]
     = Inl (KeyError ''Ghost'')"
proof -
  let ?robot = "\<lparr>name = ''Robot'', is_root = True, documentation = '''', attributes = [],
         child_classes = [(''Ghost'', ''1'', ''1'')]\<rparr>"
  let ?model = "[(''Robot'', ?robot)]"
  let ?rank = "\<lambda>k. if k = ''Robot'' then 1 else (0::nat)"
  have r: "find_root ?model = Some ?robot" by (simp add: find_root_def)
  have m: "map_of ?model ''Robot'' = Some ?robot" by simp
  have g: "map_of ?model ''Ghost'' = None" by simp
  have q: "reachable ?model ''Robot'' ''Ghost''"
    using reachable.child [of ?model "''Robot''" ?robot "(''Ghost'', ''1'', ''1'')" "''Ghost''"]
      reachable.here [of ?model "''Ghost''"] m
    by simp
  then have p: "reachable ?model (name ?robot) ''Ghost''" by simp
  have a: "ranked ?rank ?model \<and> ?rank (name ?robot) < 2" by (simp add: ranked_def)
  from generate_dangling_child [OF r p g] a
  obtain n' where n': "config_xml_generate 2 ?model = Inl (KeyError n')" by blast
  have "config_xml_generate 2 ?model = Inl (KeyError ''Ghost'')"
    by (simp add: config_xml_generate_def find_root_def append_child_def numeral_2_eq_2)
  with n' have "n' = ''Ghost''" by simp
  with n' have e: "config_xml_generate 2 ?model = Inl (KeyError ''Ghost'')" by simp
  from r q g e show ?thesis by (intro conjI)
qed

text \<open>
  The claim C10 as stated fails on a model with a cycle: \<open>parse\<close> builds, from a root class
  \<open>Robot\<close> with an aggregation of \<open>Robot\<close> itself and one of the unknown class \<open>Ghost\<close>, a
  model in which \<open>Ghost\<close> is a dangling child of the root; \<open>generate\<close> expands the
  cycle first and runs into the recursion limit (here 1000) without ever looking \<open>Ghost\<close>
  up.
\<close>

theorem generate_dangling_child_counterexample:
  "parse (Element ''Model'' [] None
      [Element ''Class'' [(''name'', ''Robot''), (''isRoot'', ''true'')] None [],
       Element ''Aggregation''
         [(''source'', ''Robot''), (''target'', ''Robot''), (''sourceMultiplicity'', ''1''),
          (''targetMultiplicity'', ''1'')] None [],
       Element ''Aggregation''
         [(''source'', ''Ghost''), (''target'', ''Robot''), (''sourceMultiplicity'', ''1''),
          (''targetMultiplicity'', ''1'')] None []])
     = Inr ([(''Robot'', \<lparr>name = ''Robot'', is_root = True, documentation = '''', attributes = [],
                child_classes = [(''Robot'', ''1'', ''1''), (''Ghost'', ''1'', ''1'')]\<rparr>)],
            [\<lparr>source = ''Robot'', target = ''Robot'', source_multiplicity = ''1'',
               target_multiplicity = ''1''\<rparr>,
             \<lparr>source = ''Ghost'', target = ''Robot'', source_multiplicity = ''1'',
               target_multiplicity = ''1''\<rparr>])
   \<and> reachable
     [(''Robot'', \<lparr>name = ''Robot'', is_root = True, documentation = '''', attributes = [],
         child_classes = [(''Robot'', ''1'', ''1''), (''Ghost'', ''1'', ''1'')]\<rparr>)] ''Robot'' ''Ghost''
   \<and> map_of
     [(''Robot'', \<lparr>name = ''Robot'', is_root = True, documentation = '''', attributes = [],
         child_classes = [(''Robot'', ''1'', ''1''), (''Ghost'', ''1'', ''1'')]\<rparr>)] ''Ghost'' = None
   \<and> config_xml_generate 1000
     [(''Robot'', \<lparr>name = ''Robot'', is_root = True, documentation = '''', attributes = [],
         child_classes = [(''Robot'', ''1'', ''1''), (''Ghost'', ''1'', ''1'')]\<rparr>)]
     = Inl RecursionError"
proof -
  let ?robot = "\<lparr>name = ''Robot'', is_root = True, documentation = '''', attributes = [],
         child_classes = [(''Robot'', ''1'', ''1''), (''Ghost'', ''1'', ''1'')]\<rparr>"
  let ?model = "[(''Robot'', ?robot)]"
  have p: "parse (Element ''Model'' [] None
      [Element ''Class'' [(''name'', ''Robot''), (''isRoot'', ''true'')] None [],
       Element ''Aggregation''
         [(''source'', ''Robot''), (''target'', ''Robot''), (''sourceMultiplicity'', ''1''),
          (''targetMultiplicity'', ''1'')] None [],
       Element ''Aggregation''
         [(''source'', ''Ghost''), (''target'', ''Robot''), (''sourceMultiplicity'', ''1''),
          (''targetMultiplicity'', ''1'')] None []])
     = Inr (?model,
            [\<lparr>source = ''Robot'', target = ''Robot'', source_multiplicity = ''1'',
               target_multiplicity = ''1''\<rparr>,
             \<lparr>source = ''Ghost'', target = ''Robot'', source_multiplicity = ''1'',
               target_multiplicity = ''1''\<rparr>])"
    by (simp add: parse_def parse_class_def parse_aggregation_def attrib_item_def attrib_get_def
        lower_def lower_char_def child_of_def multiplicity_bounds_def)
  have m: "map_of ?model ''Robot'' = Some ?robot" by simp
  have g: "map_of ?model ''Ghost'' = None" by simp
  have r: "reachable ?model ''Robot'' ''Ghost''"
    using reachable.child [of ?model "''Robot''" ?robot "(''Ghost'', ''1'', ''1'')" "''Ghost''"]
      reachable.here [of ?model "''Ghost''"] m
    by simp
  have e: "config_xml_generate 1000 ?model = Inl RecursionError"
    by (simp add: config_xml_generate_def find_root_def cyclic_robot_recursion)
  from p r g e show ?thesis by blast
qed


end
